theory Spec2Isabelle
  imports Main
begin

section \<open>The upload-server supervisor (server/server.go)\<close>

text \<open>
  The file embeds the three functions of \<^verbatim>\<open>server/server.go\<close>: \<^verbatim>\<open>RunServer\<close>,
  \<^verbatim>\<open>signalHandler\<close> and \<^verbatim>\<open>runLoop\<close>. Everything the code does to a
  collaborator (the logger, the parent router, the server instance, the wait group) is
  recorded as an \<open>action\<close> in a trace, in program order. Everything the code reads
  from a collaborator (the loaded configuration, the error of the loader, whether the
  started channel fires, which case of the \<^verbatim>\<open>select\<close> fires, whether
  \<^verbatim>\<open>serv.Shutdown()\<close> returns) is an input of the iteration that reads it. A call
  is recorded when it is made, and is taken to return unless an input says otherwise.
  The exception is \<^verbatim>\<open>parentRouter.Handle\<close>: the parent router is a
  \<^verbatim>\<open>*http.ServeMux\<close>, whose \<^verbatim>\<open>Handle\<close> panics on a pattern it refuses, and
  \<^verbatim>\<open>runLoop\<close> recovers from no panic; so the patterns the router holds are part of
  the state of the loop, and a refused pattern ends the run.
\<close>

subsection \<open>Data\<close>

text \<open>
  A Go \<^verbatim>\<open>error\<close> value that is not nil. \<^verbatim>\<open>http.ErrServerClosed\<close> is one fixed
  value, compared by identity in the source (\<^verbatim>\<open>err != http.ErrServerClosed\<close>).
\<close>

datatype error = ErrServerClosed | OtherError string

text \<open>The two fields of \<^verbatim>\<open>serv.cfg.Server\<close> that \<^verbatim>\<open>runLoop\<close> reads.\<close>

record config =
  BasePath :: string
  ListenAddress :: string

text \<open>The case of the \<^verbatim>\<open>select\<close> statement that fires (lines 115 to 152).\<close>

datatype event =
    FromErrChan error      \<comment> \<open>\<^verbatim>\<open>case err := <-errChan\<close>\<close>
  | FromReloadRequested    \<comment> \<open>\<^verbatim>\<open>case <-reloadRequested\<close>\<close>
  | FromDone               \<comment> \<open>\<^verbatim>\<open>case <-done\<close>\<close>

text \<open>
  What one iteration of the \<^verbatim>\<open>for\<close> loop reads from its environment:
  \<^item> \<open>loadErr\<close>: the result of \<^verbatim>\<open>serv.cfg.Load(configPath)\<close> (\<open>None\<close> is nil);
  \<^item> \<open>cfg\<close>: the state of \<^verbatim>\<open>serv.cfg\<close> after \<^verbatim>\<open>Load\<close> returned, error or not;
  \<^item> \<open>started\<close>: whether the receive \<^verbatim>\<open><-serv.GetStartedChan()\<close> ever completes;
  \<^item> \<open>selected\<close>: the case of the \<^verbatim>\<open>select\<close> that fires;
  \<^item> \<open>shutdownReturns\<close>: whether the synchronous call \<^verbatim>\<open>serv.Shutdown()\<close> of the
    \<^verbatim>\<open>done\<close> case returns (it blocks until the instance has drained).
\<close>

record iteration =
  loadErr :: "error option"
  cfg :: config
  started :: bool
  selected :: event
  shutdownReturns :: bool

text \<open>
  The calls the code makes, in program order. A server instance is named by the number
  of the iteration that created it. \<open>Go as\<close> is a \<^verbatim>\<open>go func() { ... }()\<close> statement:
  the body \<open>as\<close> runs in a goroutine of its own and the caller does not wait for it.
\<close>

datatype action =
    LogLoadFailed error        \<comment> \<open>\<^verbatim>\<open>log.Error().Err(err).Msg("Failed to load config")\<close>\<close>
  | Handle string              \<comment> \<open>\<^verbatim>\<open>parentRouter.Handle(pattern, replaceableHandler)\<close>, made\<close>
  | LogMounted string          \<comment> \<open>event \<^verbatim>\<open>startup\<close> with \<^verbatim>\<open>routePrefix\<close>\<close>
  | Run nat                    \<comment> \<open>\<^verbatim>\<open>serv.Run(replaceableHandler)\<close>\<close>
  | Started nat                \<comment> \<open>\<^verbatim>\<open><-serv.GetStartedChan()\<close> completed\<close>
  | LogListening string        \<comment> \<open>event \<^verbatim>\<open>startup\<close> with \<^verbatim>\<open>address\<close>\<close>
  | PrintErr error             \<comment> \<open>\<^verbatim>\<open>fmt.Printf("errChan: %#v\n", err)\<close>\<close>
  | LogFatal error             \<comment> \<open>\<^verbatim>\<open>log.Fatal().Err(err).Msg(...)\<close>, which ends in \<^verbatim>\<open>os.Exit(1)\<close>\<close>
  | LogConfigReload            \<comment> \<open>event \<^verbatim>\<open>config_reload\<close>\<close>
  | Shutdown nat               \<comment> \<open>\<^verbatim>\<open>serv.Shutdown()\<close>\<close>
  | LogShutdownStarted         \<comment> \<open>event \<^verbatim>\<open>shutdown_started\<close>\<close>
  | WgDone                     \<comment> \<open>\<^verbatim>\<open>wg.Done()\<close>\<close>
  | LogShutdownComplete        \<comment> \<open>event \<^verbatim>\<open>shutdown\<close>\<close>
  | Go "action list"

text \<open>
  How a run ends, as far as the inputs given say:
  \<^item> \<open>Returned\<close>: the function returned;
  \<^item> \<open>Exited\<close>: \<^verbatim>\<open>log.Fatal\<close> ended the process with \<^verbatim>\<open>os.Exit(1)\<close>;
  \<^item> \<open>Panicked e\<close>: \<^verbatim>\<open>panic(e)\<close>, which no frame recovers: the process crashes;
  \<^item> \<open>HandlePanicked msg\<close>: \<^verbatim>\<open>parentRouter.Handle\<close> panicked with the message
    \<open>msg\<close>, which no frame recovers either: the process crashes;
  \<^item> \<open>Blocked\<close>: the goroutine waits for ever (a receive or a call that never completes);
  \<^item> \<open>Continues\<close>: the loop is at the top of its next iteration and the inputs given end.
\<close>

datatype outcome =
  Returned | Exited | Panicked error | HandlePanicked string | Blocked | Continues

subsection \<open>runLoop\<close>

text \<open>\<^verbatim>\<open>strings.HasSuffix\<close>: \<^verbatim>\<open>len(s) >= len(suffix) && s[len(s)-len(suffix):] == suffix\<close>.\<close>

definition HasSuffix :: "string \<Rightarrow> string \<Rightarrow> bool" where
  "HasSuffix s suffix =
     (length s \<ge> length suffix \<and> drop (length s - length suffix) s = suffix)"

text \<open>
  The parent router, a \<^verbatim>\<open>*http.ServeMux\<close>, is the set of the patterns registered on
  it; \<open>None\<close> is the nil pointer. The set \<^verbatim>\<open>RunServer\<close> is given holds what the
  caller registered before the call.
\<close>

type_synonym mux = "string set"

text \<open>
  \<^verbatim>\<open>(*http.ServeMux).Handle\<close> of package \<^verbatim>\<open>net/http\<close>, for a handler that is not nil
  (\<^verbatim>\<open>replaceableHandler\<close> is allocated at line 60 whenever there is a parent router):
  it panics with \<^verbatim>\<open>http: invalid pattern\<close> on the empty pattern and with
  \<^verbatim>\<open>http: multiple registrations for\<close> the pattern on a pattern already registered,
  and registers the pattern otherwise. \<open>Inl msg\<close> is the panic.
\<close>

definition ServeMux_Handle :: "string \<Rightarrow> mux \<Rightarrow> string + mux" where
  "ServeMux_Handle pattern m =
     (if pattern = [] then Inl ''http: invalid pattern''
      else if pattern \<in> m then Inl (''http: multiple registrations for '' @ pattern)
      else Inr (insert pattern m))"

text \<open>
  Lines 76 to 92. \<^verbatim>\<open>routePrefixFromBasePath\<close> is not part of \<^verbatim>\<open>server.go\<close>: it is the
  parameter \<open>rp\<close>, returning \<open>Inl err\<close> or \<open>Inr routePrefix\<close>.
  \<open>registeredPrefixes\<close> is the Go map used as a set. The result is the calls made, the
  set of registered prefixes and the parent router after them, and \<open>Some out\<close> when the
  step panics (\<^verbatim>\<open>panic(err)\<close> of line 79, or a panic of \<^verbatim>\<open>Handle\<close> at line 83 or
  85, the prefix already recorded at line 82), \<open>None\<close> when it completes.
\<close>

definition mount ::
  "(string \<Rightarrow> error + string) \<Rightarrow> mux option \<Rightarrow> string set \<Rightarrow> config
     \<Rightarrow> action list \<times> string set \<times> mux option \<times> outcome option" where
  "mount rp parentRouter registeredPrefixes c =
     (case parentRouter of
        None \<Rightarrow> ([], registeredPrefixes, None, None)
      | Some m \<Rightarrow>
          (case rp (BasePath c) of
             Inl err \<Rightarrow> ([], registeredPrefixes, Some m, Some (Panicked err))
           | Inr routePrefix \<Rightarrow>
               if routePrefix \<notin> registeredPrefixes then
                 (case ServeMux_Handle routePrefix m of
                    Inl msg \<Rightarrow>
                      ([Handle routePrefix],
                       insert routePrefix registeredPrefixes, Some m, Some (HandlePanicked msg))
                  | Inr m' \<Rightarrow>
                      if \<not> HasSuffix routePrefix ''/'' then
                        (case ServeMux_Handle (routePrefix @ ''/'') m' of
                           Inl msg \<Rightarrow>
                             ([Handle routePrefix, Handle (routePrefix @ ''/'')],
                              insert routePrefix registeredPrefixes, Some m',
                              Some (HandlePanicked msg))
                         | Inr m'' \<Rightarrow>
                             ([Handle routePrefix, Handle (routePrefix @ ''/''),
                               LogMounted routePrefix],
                              insert routePrefix registeredPrefixes, Some m'', None))
                      else
                        ([Handle routePrefix, LogMounted routePrefix],
                         insert routePrefix registeredPrefixes, Some m', None))
               else ([], registeredPrefixes, Some m, None)))"

text \<open>
  Lines 114 to 153, the closure \<^verbatim>\<open>shouldRestart\<close> for instance \<open>i\<close>: the calls made and
  \<open>Inr b\<close> when it returns \<open>b\<close>, \<open>Inl out\<close> when it does not return.
\<close>

definition shouldRestart :: "nat \<Rightarrow> iteration \<Rightarrow> action list \<times> (outcome + bool)" where
  "shouldRestart i it =
     (case selected it of
        FromErrChan err \<Rightarrow>
          if err \<noteq> ErrServerClosed then ([PrintErr err, LogFatal err], Inl Exited)
          else ([PrintErr err], Inr True)
      | FromReloadRequested \<Rightarrow> ([Go [LogConfigReload, Shutdown i]], Inr True)
      | FromDone \<Rightarrow>
          if shutdownReturns it then ([LogShutdownStarted, Shutdown i, WgDone], Inr False)
          else ([LogShutdownStarted, Shutdown i], Inl Blocked))"

text \<open>
  Lines 94 to 111, when the started channel fires: the instance is run in a goroutine,
  the loop receives from the started channel, and logs the listen address when there is
  no parent router.
\<close>

definition startup :: "mux option \<Rightarrow> nat \<Rightarrow> iteration \<Rightarrow> action list" where
  "startup parentRouter i it =
     [Go [Run i], Started i]
     @ (if parentRouter = None then [LogListening (ListenAddress (cfg it))] else [])"

text \<open>
  Lines 94 to 153. When the started channel never fires the loop waits at line 105 for
  ever, the instance's goroutine launched.
\<close>

definition serve :: "mux option \<Rightarrow> nat \<Rightarrow> iteration \<Rightarrow> action list \<times> (outcome + bool)" where
  "serve parentRouter i it =
     (if \<not> started it then ([Go [Run i]], Inl Blocked)
      else (case shouldRestart i it of (as, r) \<Rightarrow> (startup parentRouter i it @ as, r)))"

text \<open>Lines 66 to 73: the new instance, and the configuration loaded into it.\<close>

definition load :: "iteration \<Rightarrow> action list" where
  "load it = (case loadErr it of Some err \<Rightarrow> [LogLoadFailed err] | None \<Rightarrow> [])"

text \<open>
  The \<^verbatim>\<open>for\<close> loop of lines 64 to 158, one input per iteration, starting at instance
  \<open>i\<close> with the prefixes \<open>registeredPrefixes\<close> and the parent router
  \<open>parentRouter\<close>. The result is the trace, the set of registered prefixes and the
  parent router at the end, and how the run ends.
\<close>

fun runLoop_from ::
  "(string \<Rightarrow> error + string) \<Rightarrow> mux option \<Rightarrow> string set \<Rightarrow> nat \<Rightarrow> iteration list
     \<Rightarrow> action list \<times> string set \<times> mux option \<times> outcome" where
  "runLoop_from rp parentRouter registeredPrefixes i [] =
     ([], registeredPrefixes, parentRouter, Continues)"
| "runLoop_from rp parentRouter registeredPrefixes i (it # its) =
     (case mount rp parentRouter registeredPrefixes (cfg it) of
        (ms, registeredPrefixes', parentRouter', Some out) \<Rightarrow>
          (load it @ ms, registeredPrefixes', parentRouter', out)
      | (ms, registeredPrefixes', parentRouter', None) \<Rightarrow>
          (case serve parentRouter' i it of
             (ss, Inl out) \<Rightarrow> (load it @ ms @ ss, registeredPrefixes', parentRouter', out)
           | (ss, Inr False) \<Rightarrow>
               (load it @ ms @ ss, registeredPrefixes', parentRouter', Returned)
           | (ss, Inr True) \<Rightarrow>
               (case runLoop_from rp parentRouter' registeredPrefixes' (Suc i) its of
                  (tr, rs, rt, out) \<Rightarrow> (load it @ ms @ ss @ tr, rs, rt, out))))"

text \<open>Lines 57 to 62: the loop starts with no prefix registered, at the first instance.\<close>

definition runLoop ::
  "(string \<Rightarrow> error + string) \<Rightarrow> mux option \<Rightarrow> iteration list
     \<Rightarrow> action list \<times> string set \<times> mux option \<times> outcome" where
  "runLoop rp parentRouter its = runLoop_from rp parentRouter {} 0 its"

subsection \<open>RunServer\<close>

text \<open>
  Lines 16 to 35. The wait group is a counter: \<^verbatim>\<open>wg.Add(1)\<close> makes it 1, each
  \<^verbatim>\<open>wg.Done()\<close> of the trace takes one off, and \<^verbatim>\<open>wg.Wait()\<close> returns once it is 0.
  When the process exits or panics in \<^verbatim>\<open>runLoop\<close>, \<^verbatim>\<open>RunServer\<close> ends the same way.
\<close>

definition wgCounter :: "action list \<Rightarrow> int" where
  "wgCounter tr = 1 - int (count_list tr WgDone)"

definition RunServer ::
  "(string \<Rightarrow> error + string) \<Rightarrow> mux option \<Rightarrow> iteration list
     \<Rightarrow> action list \<times> outcome" where
  "RunServer rp router its =
     (case runLoop rp router its of
        (tr, rs, rt, out) \<Rightarrow>
          (case out of
             Exited \<Rightarrow> (tr, Exited)
           | Panicked e \<Rightarrow> (tr, Panicked e)
           | HandlePanicked msg \<Rightarrow> (tr, HandlePanicked msg)
           | Returned \<Rightarrow>
               if wgCounter tr = 0 then (tr @ [LogShutdownComplete], Returned) else (tr, Blocked)
           | Blocked \<Rightarrow>
               if wgCounter tr = 0 then (tr @ [LogShutdownComplete], Returned) else (tr, Blocked)
           | Continues \<Rightarrow>
               if wgCounter tr = 0 then (tr @ [LogShutdownComplete], Returned) else (tr, Continues)))"

subsection \<open>signalHandler\<close>

text \<open>
  The signals of the process. \<^verbatim>\<open>os.Signal\<close> is an interface; the three the source
  names are constructors of their own, any other is \<open>OtherSignal\<close> with its number.
\<close>

datatype signal = SIGHUP | SIGINT | SIGTERM | OtherSignal nat

text \<open>The two channels \<^verbatim>\<open>RunServer\<close> makes (lines 21 and 22): \<^verbatim>\<open>reloadRequested\<close>, \<^verbatim>\<open>done\<close>.\<close>

datatype channel = ReloadRequested | Done

text \<open>
  The state the goroutine of \<^verbatim>\<open>signalHandler\<close> works on:
  \<^item> \<open>signals\<close>: the values buffered in the channel \<^verbatim>\<open>signals\<close> (line 38), oldest first;
  \<^item> \<open>buffered c\<close>: the number of values buffered in the channel \<open>c\<close> (the values are
    \<^verbatim>\<open>struct{}{}\<close>, so their number is all there is);
  \<^item> \<open>sending\<close>: \<open>Some c\<close> while the goroutine is blocked in the send statement on \<open>c\<close>.
\<close>

record process =
  signals :: "signal list"
  buffered :: "channel \<Rightarrow> nat"
  sending :: "channel option"

text \<open>All three channels are made with capacity 1 (\<^verbatim>\<open>make(chan ..., 1)\<close>) and empty.\<close>

definition capacity :: nat where
  "capacity = 1"

definition initial :: process where
  "initial = \<lparr>signals = [], buffered = (\<lambda>c. 0), sending = None\<rparr>"

text \<open>Line 40: the signals \<^verbatim>\<open>signal.Notify\<close> subscribes the channel \<^verbatim>\<open>signals\<close> to.\<close>

fun notified :: "signal \<Rightarrow> bool" where
  "notified SIGHUP = True"
| "notified SIGINT = True"
| "notified SIGTERM = True"
| "notified (OtherSignal n) = False"

text \<open>
  The arrival of a signal. Package \<^verbatim>\<open>os/signal\<close> does not block sending to the channel:
  a subscribed signal is buffered when there is room and lost otherwise.
\<close>

definition arrive :: "signal \<Rightarrow> process \<Rightarrow> process" where
  "arrive sig st =
     (if notified sig \<and> length (signals st) < capacity
      then st\<lparr>signals := signals st @ [sig]\<rparr> else st)"

text \<open>
  Lines 43 to 53, the \<^verbatim>\<open>switch\<close>: the channel the case of \<open>sig\<close> sends on, \<open>None\<close>
  when no case matches (the switch has no default). \<^verbatim>\<open>SIGINT\<close> falls through to the
  case of \<^verbatim>\<open>SIGTERM\<close>.
\<close>

fun target :: "signal \<Rightarrow> channel option" where
  "target SIGHUP = Some ReloadRequested"
| "target SIGINT = Some Done"
| "target SIGTERM = Some Done"
| "target (OtherSignal n) = None"

text \<open>
  The send statement \<^verbatim>\<open>c <- struct{}{}\<close> of Go on a buffered channel: the value is
  buffered when there is room; otherwise the goroutine blocks in the statement.
\<close>

definition send :: "channel \<Rightarrow> process \<Rightarrow> process" where
  "send c st =
     (if buffered st c < capacity then st\<lparr>buffered := (buffered st)(c := buffered st c + 1)\<rparr>
      else st\<lparr>sending := Some c\<rparr>)"

text \<open>
  One turn of the goroutine of \<^verbatim>\<open>signalHandler\<close> (lines 42 to 54). Blocked in a send, or
  with nothing to receive from \<^verbatim>\<open>signals\<close>, it does nothing; otherwise it receives the
  oldest signal and runs the \<^verbatim>\<open>switch\<close> on it.
\<close>

definition signalHandler_step :: "process \<Rightarrow> process" where
  "signalHandler_step st =
     (case sending st of
        Some c \<Rightarrow> st
      | None \<Rightarrow>
          (case signals st of
             [] \<Rightarrow> st
           | sig # rest \<Rightarrow>
               (case target sig of
                  None \<Rightarrow> st\<lparr>signals := rest\<rparr>
                | Some c \<Rightarrow> send c (st\<lparr>signals := rest\<rparr>))))"

text \<open>
  A receive \<^verbatim>\<open><-c\<close> by the supervisor (the cases of lines 130 and 144). With nothing
  buffered it cannot fire: \<open>None\<close>. Otherwise it takes the buffered value, and a send
  blocked on \<open>c\<close> completes into the room made.
\<close>

definition receive :: "channel \<Rightarrow> process \<Rightarrow> process option" where
  "receive c st =
     (if buffered st c = 0 then None
      else if sending st = Some c then Some (st\<lparr>sending := None\<rparr>)
      else Some (st\<lparr>buffered := (buffered st)(c := buffered st c - 1)\<rparr>))"

text \<open>
  The loop of \<^verbatim>\<open>signalHandler\<close> on the signals it receives from \<^verbatim>\<open>signals\<close>, in
  order: the channels it sends on, in order (each send completes before the next
  receive from \<^verbatim>\<open>signals\<close>).
\<close>

fun signalHandler :: "signal list \<Rightarrow> channel list" where
  "signalHandler [] = []"
| "signalHandler (sig # sigs) =
     (case target sig of
        None \<Rightarrow> signalHandler sigs
      | Some c \<Rightarrow> c # signalHandler sigs)"

subsection \<open>Example inputs\<close>

text \<open>
  A \<^verbatim>\<open>routePrefixFromBasePath\<close> that refuses the empty base path and returns any other
  as it is, and an iteration whose configuration loads, whose instance starts and whose
  \<^verbatim>\<open>Shutdown\<close> returns. The parent router of the examples is \<open>Some {}\<close>, a router
  with no pattern registered yet.
\<close>

abbreviation (input) example_rp :: "string \<Rightarrow> error + string" where
  "example_rp \<equiv> (\<lambda>s. if s = [] then Inl (OtherError ''empty base path'') else Inr s)"

abbreviation (input) example_it :: "string \<Rightarrow> event \<Rightarrow> iteration" where
  "example_it bp ev \<equiv>
     \<lparr>loadErr = None, cfg = \<lparr>BasePath = bp, ListenAddress = '':8088''\<rparr>,
      started = True, selected = ev, shutdownReturns = True\<rparr>"

section \<open>Properties of the supervisor loop\<close>

subsection \<open>The loop, one iteration at a time\<close>

text \<open>
  The four ways one iteration can go: the mounting step panics; the instance does not
  start, or the \<^verbatim>\<open>select\<close> ends the process or blocks; the closure returns false;
  the closure returns true and the loop goes round.
\<close>

lemma runLoop_from_Cons_cases:
  obtains
    (panic) ms regs' rt' out where
      "mount rp rt regs (cfg it) = (ms, regs', rt', Some out)"
      "runLoop_from rp rt regs i (it # its) = (load it @ ms, regs', rt', out)"
  | (halt) ms regs' rt' ss out where
      "mount rp rt regs (cfg it) = (ms, regs', rt', None)"
      "serve rt' i it = (ss, Inl out)"
      "runLoop_from rp rt regs i (it # its) = (load it @ ms @ ss, regs', rt', out)"
  | (return) ms regs' rt' ss where
      "mount rp rt regs (cfg it) = (ms, regs', rt', None)"
      "serve rt' i it = (ss, Inr False)"
      "runLoop_from rp rt regs i (it # its) = (load it @ ms @ ss, regs', rt', Returned)"
  | (restart) ms regs' rt' ss tr rs rt'' out where
      "mount rp rt regs (cfg it) = (ms, regs', rt', None)"
      "serve rt' i it = (ss, Inr True)"
      "runLoop_from rp rt' regs' (Suc i) its = (tr, rs, rt'', out)"
      "runLoop_from rp rt regs i (it # its) = (load it @ ms @ ss @ tr, rs, rt'', out)"
proof -
  obtain ms regs' rt' po where m: "mount rp rt regs (cfg it) = (ms, regs', rt', po)"
    by (cases "mount rp rt regs (cfg it)")
  show thesis
  proof (cases po)
    case (Some out)
    with m show thesis by (intro panic[of ms regs' rt' out]) simp_all
  next
    case None
    obtain ss r where s: "serve rt' i it = (ss, r)" by (cases "serve rt' i it")
    show thesis
    proof (cases r)
      case (Inl out)
      with m None s show thesis by (intro halt[of ms regs' rt' ss out]) simp_all
    next
      case (Inr b)
      show thesis
      proof (cases b)
        case False
        with m None s Inr show thesis by (intro return[of ms regs' rt' ss]) simp_all
      next
        case True
        obtain tr rs rt'' out where "runLoop_from rp rt' regs' (Suc i) its = (tr, rs, rt'', out)"
          by (cases "runLoop_from rp rt' regs' (Suc i) its")
        with m None s Inr True show thesis
          by (intro restart[of ms regs' rt' ss tr rs rt'' out]) simp_all
      qed
    qed
  qed
qed

lemma serve_Inl:
  "serve rt i it = (ss, Inl out) \<Longrightarrow> out = Blocked \<or> out = Exited"
  by (auto simp: serve_def shouldRestart_def split: if_splits event.splits prod.splits)

lemma mount_panics:
  "mount rp rt regs c = (ms, regs', rt', Some out) \<Longrightarrow>
   (\<exists>e. out = Panicked e) \<or> (\<exists>msg. out = HandlePanicked msg)"
  by (auto simp: mount_def split: option.splits sum.splits if_splits)

lemma mount_router:
  "mount rp rt regs c = (ms, regs', rt', po) \<Longrightarrow> (rt' = None) = (rt = None)"
  by (auto simp: mount_def split: option.splits sum.splits if_splits)

lemma runLoop_from_router:
  "(fst (snd (snd (runLoop_from rp rt regs i its))) = None) = (rt = None)"
proof (induction its arbitrary: rt regs i)
  case Nil
  show ?case by simp
next
  case (Cons it its)
  show ?case
  proof (cases rule: runLoop_from_Cons_cases[of rp rt regs it i its])
    case (panic ms regs' rt' out)
    with mount_router[OF panic(1)] show ?thesis by simp
  next
    case (halt ms regs' rt' ss out)
    with mount_router[OF halt(1)] show ?thesis by simp
  next
    case (return ms regs' rt' ss)
    with mount_router[OF return(1)] show ?thesis by simp
  next
    case (restart ms regs' rt' ss tr rs rt'' out)
    with mount_router[OF restart(1)] Cons.IH[of rt' regs' "Suc i"] show ?thesis by simp
  qed
qed

lemma runLoop_from_append:
  "runLoop_from rp rt regs i pre = (tr0, regs1, rt1, Continues) \<Longrightarrow>
   runLoop_from rp rt regs i (pre @ its) =
     (case runLoop_from rp rt1 regs1 (i + length pre) its of
        (tr, rs, rt', out) \<Rightarrow> (tr0 @ tr, rs, rt', out))"
proof (induction pre arbitrary: rt regs i tr0)
  case Nil
  then show ?case by (simp split: prod.splits)
next
  case (Cons it pre)
  show ?case
  proof (cases rule: runLoop_from_Cons_cases[of rp rt regs it i pre])
    case (panic ms regs' rt' out)
    with Cons.prems mount_panics[OF panic(1)] show ?thesis by auto
  next
    case (halt ms regs' rt' ss out)
    with Cons.prems serve_Inl[OF halt(2)] show ?thesis by auto
  next
    case (return ms regs' rt' ss)
    with Cons.prems show ?thesis by simp
  next
    case (restart ms regs' rt' ss tr1 rs1 rt'' o1)
    from Cons.prems restart(3,4)
    have o1: "o1 = Continues" and rs1: "rs1 = regs1" and rt'': "rt'' = rt1"
      and tr0: "tr0 = load it @ ms @ ss @ tr1"
      by simp_all
    from Cons.IH[of rt' regs' "Suc i" tr1] restart(3) o1 rs1 rt''
    have "runLoop_from rp rt' regs' (Suc i) (pre @ its) =
        (case runLoop_from rp rt1 regs1 (Suc i + length pre) its of
           (tr, rs, rt', out) \<Rightarrow> (tr1 @ tr, rs, rt', out))" by simp
    with restart(1,2) tr0 show ?thesis
      by (simp split: prod.splits)
  qed
qed

lemma count_WgDone_shouldRestart:
  "count_list (fst (shouldRestart i it)) WgDone = (if snd (shouldRestart i it) = Inr False then 1 else 0)"
  by (simp add: shouldRestart_def split: event.splits)

lemma count_WgDone_serve:
  "count_list (fst (serve rt i it)) WgDone = (if snd (serve rt i it) = Inr False then 1 else 0)"
  using count_WgDone_shouldRestart[of i it]
  by (cases "shouldRestart i it") (simp add: serve_def startup_def)

lemma count_WgDone_load: "count_list (load it) WgDone = 0"
  by (simp add: load_def split: option.splits)

lemma count_WgDone_mount:
  "mount rp rt regs c = (ms, regs', rt', po) \<Longrightarrow> count_list ms WgDone = 0"
  by (auto simp: mount_def split: option.splits sum.splits if_splits)

lemma count_WgDone_runLoop_from:
  "count_list (fst (runLoop_from rp rt regs i its)) WgDone =
     (if snd (snd (snd (runLoop_from rp rt regs i its))) = Returned then 1 else 0)"
proof (induction its arbitrary: rt regs i)
  case Nil
  show ?case by simp
next
  case (Cons it its)
  show ?case
  proof (cases rule: runLoop_from_Cons_cases[of rp rt regs it i its])
    case (panic ms regs' rt' out)
    with mount_panics[OF panic(1)] count_WgDone_mount[OF panic(1)] show ?thesis
      by (auto simp: count_WgDone_load)
  next
    case (halt ms regs' rt' ss out)
    with serve_Inl[OF halt(2)] count_WgDone_mount[OF halt(1)] count_WgDone_serve[of rt' i it]
    show ?thesis by (auto simp: count_WgDone_load)
  next
    case (return ms regs' rt' ss)
    with count_WgDone_mount[OF return(1)] count_WgDone_serve[of rt' i it]
    show ?thesis by (simp add: count_WgDone_load)
  next
    case (restart ms regs' rt' ss tr rs rt'' out)
    with count_WgDone_mount[OF restart(1)] count_WgDone_serve[of rt' i it]
      Cons.IH[of rt' regs' "Suc i"]
    show ?thesis by (simp add: count_WgDone_load)
  qed
qed

lemma wgCounter_runLoop_from:
  "wgCounter (fst (runLoop_from rp rt regs i its)) = 0 \<longleftrightarrow>
     snd (snd (snd (runLoop_from rp rt regs i its))) = Returned"
  by (simp add: wgCounter_def count_WgDone_runLoop_from)

lemma RunServer_outcome:
  "snd (RunServer rp rt its) = snd (snd (snd (runLoop rp rt its)))"
  using wgCounter_runLoop_from[of rp rt "{}" 0 its]
  by (cases "runLoop_from rp rt {} 0 its")
     (auto simp: RunServer_def runLoop_def split: outcome.splits)

lemma RunServer_trace:
  "fst (RunServer rp rt its) =
     fst (runLoop rp rt its)
     @ (if snd (snd (snd (runLoop rp rt its))) = Returned then [LogShutdownComplete] else [])"
  using wgCounter_runLoop_from[of rp rt "{}" 0 its]
  by (cases "runLoop_from rp rt {} 0 its")
     (auto simp: RunServer_def runLoop_def split: outcome.splits)

lemma Returned_runLoop_from:
  "snd (snd (snd (runLoop_from rp rt regs i its))) = Returned \<Longrightarrow>
   \<exists>pre it post tr0. its = pre @ it # post \<and> started it \<and> selected it = FromDone
      \<and> shutdownReturns it
      \<and> fst (runLoop_from rp rt regs i its)
          = tr0 @ [LogShutdownStarted, Shutdown (i + length pre), WgDone]"
proof (induction its arbitrary: rt regs i)
  case Nil
  then show ?case by simp
next
  case (Cons it its)
  show ?case
  proof (cases rule: runLoop_from_Cons_cases[of rp rt regs it i its])
    case (panic ms regs' rt' out)
    with Cons.prems mount_panics[OF panic(1)] show ?thesis by auto
  next
    case (halt ms regs' rt' ss out)
    with Cons.prems serve_Inl[OF halt(2)] show ?thesis by auto
  next
    case (return ms regs' rt' ss)
    from return(2) have it: "started it" "selected it = FromDone" "shutdownReturns it"
      and ss: "ss = startup rt' i it @ [LogShutdownStarted, Shutdown i, WgDone]"
      by (auto simp: serve_def shouldRestart_def split: if_splits event.splits prod.splits)
    have "fst (runLoop_from rp rt regs i (it # its))
        = (load it @ ms @ startup rt' i it)
          @ [LogShutdownStarted, Shutdown (i + length ([]::iteration list)), WgDone]"
      using return(3) ss by simp
    with it show ?thesis by (metis append_Nil)
  next
    case (restart ms regs' rt' ss tr1 rs1 rt'' o1)
    with Cons.prems have "o1 = Returned" by simp
    with Cons.IH[of rt' regs' "Suc i"] restart(3)
    obtain pre it' post tr0 where its: "its = pre @ it' # post"
      and it': "started it'" "selected it' = FromDone" "shutdownReturns it'"
      and tr1: "tr1 = tr0 @ [LogShutdownStarted, Shutdown (Suc i + length pre), WgDone]"
      by auto
    have "it # its = (it # pre) @ it' # post" using its by simp
    moreover have "fst (runLoop_from rp rt regs i (it # its))
        = (load it @ ms @ ss @ tr0)
          @ [LogShutdownStarted, Shutdown (i + length (it # pre)), WgDone]"
      using restart(4) tr1 by simp
    ultimately show ?thesis using it' by blast
  qed
qed

lemma runLoop_append:
  "runLoop rp rt pre = (tr0, regs, rt1, Continues) \<Longrightarrow>
   runLoop rp rt (pre @ its) =
     (case runLoop_from rp rt1 regs (length pre) its of
        (tr, rs, rt', out) \<Rightarrow> (tr0 @ tr, rs, rt', out))"
  using runLoop_from_append[of rp rt "{}" 0 pre tr0 regs rt1 its] by (simp add: runLoop_def)

lemma RunServer_eq:
  "RunServer rp rt its =
     (fst (runLoop rp rt its)
      @ (if snd (snd (snd (runLoop rp rt its))) = Returned then [LogShutdownComplete] else []),
      snd (snd (snd (runLoop rp rt its))))"
  using RunServer_trace[of rp rt its] RunServer_outcome[of rp rt its]
  by (cases "RunServer rp rt its") simp

subsection \<open>The reactions to the three events\<close>

text \<open>
  C1. An iteration reached by the loop whose instance has started and whose
  \<^verbatim>\<open>select\<close> receives from \<^verbatim>\<open>done\<close> calls \<^verbatim>\<open>serv.Shutdown()\<close> in the loop's
  own goroutine. When the call returns, \<^verbatim>\<open>wg.Done()\<close> follows, the loop returns
  whatever inputs would come next (no further instance is run), and \<^verbatim>\<open>RunServer\<close>
  logs the shutdown and returns; while the call does not return, nothing follows it.
  \<^verbatim>\<open>RunServer\<close> returns exactly when the wait group's counter is 0, and whenever it
  returns, its trace ends with that shutdown path of some iteration.
\<close>

theorem shutdown_intent_is_the_only_exit:
  "(runLoop rp rt pre = (past, regs, rt1, Continues) \<and> started it \<and> selected it = FromDone
      \<and> mount rp rt1 regs (cfg it) = (ms, regs', rt2, None) \<longrightarrow>
      RunServer rp rt (pre @ it # post) =
        (if shutdownReturns it
         then (past @ load it @ ms @ startup rt2 (length pre) it
                 @ [LogShutdownStarted, Shutdown (length pre), WgDone, LogShutdownComplete],
               Returned)
         else (past @ load it @ ms @ startup rt2 (length pre) it
                 @ [LogShutdownStarted, Shutdown (length pre)],
               Blocked)))
   \<and> (snd (RunServer rp rt its) = Returned \<longleftrightarrow> wgCounter (fst (runLoop rp rt its)) = 0)
   \<and> (snd (RunServer rp rt its) = Returned \<longrightarrow>
        (\<exists>pre' it' post' tr'. its = pre' @ it' # post' \<and> started it' \<and> selected it' = FromDone
           \<and> shutdownReturns it'
           \<and> fst (RunServer rp rt its)
               = tr' @ [LogShutdownStarted, Shutdown (length pre'), WgDone, LogShutdownComplete]))"
proof (intro conjI impI)
  assume a: "runLoop rp rt pre = (past, regs, rt1, Continues) \<and> started it
      \<and> selected it = FromDone
      \<and> mount rp rt1 regs (cfg it) = (ms, regs', rt2, None)"
  then have pre: "runLoop rp rt pre = (past, regs, rt1, Continues)"
    and m: "mount rp rt1 regs (cfg it) = (ms, regs', rt2, None)"
    and st: "started it" and sel: "selected it = FromDone" by simp_all
  have head: "runLoop_from rp rt1 regs (length pre) (it # post) =
      (if shutdownReturns it
       then (load it @ ms @ startup rt2 (length pre) it
               @ [LogShutdownStarted, Shutdown (length pre), WgDone], regs', rt2, Returned)
       else (load it @ ms @ startup rt2 (length pre) it
               @ [LogShutdownStarted, Shutdown (length pre)], regs', rt2, Blocked))"
    using m st sel by (simp add: serve_def shouldRestart_def)
  show "RunServer rp rt (pre @ it # post) =
        (if shutdownReturns it
         then (past @ load it @ ms @ startup rt2 (length pre) it
                 @ [LogShutdownStarted, Shutdown (length pre), WgDone, LogShutdownComplete],
               Returned)
         else (past @ load it @ ms @ startup rt2 (length pre) it
                 @ [LogShutdownStarted, Shutdown (length pre)],
               Blocked))"
    unfolding RunServer_eq runLoop_append[OF pre] head by simp
next
  show "snd (RunServer rp rt its) = Returned \<longleftrightarrow> wgCounter (fst (runLoop rp rt its)) = 0"
    by (simp add: RunServer_outcome runLoop_def wgCounter_runLoop_from)
next
  assume r: "snd (RunServer rp rt its) = Returned"
  then have r': "snd (snd (snd (runLoop_from rp rt {} 0 its))) = Returned"
    by (simp add: RunServer_outcome runLoop_def)
  from Returned_runLoop_from[OF r']
  obtain pre' it' post' tr' where "its = pre' @ it' # post'" "started it'"
    "selected it' = FromDone" "shutdownReturns it'"
    "fst (runLoop_from rp rt {} 0 its)
       = tr' @ [LogShutdownStarted, Shutdown (0 + length pre'), WgDone]"
    by blast
  moreover from this r' have "fst (RunServer rp rt its)
      = tr' @ [LogShutdownStarted, Shutdown (length pre'), WgDone, LogShutdownComplete]"
    by (simp add: RunServer_trace runLoop_def)
  ultimately show "\<exists>pre' it' post' tr'. its = pre' @ it' # post' \<and> started it'
           \<and> selected it' = FromDone \<and> shutdownReturns it'
           \<and> fst (RunServer rp rt its)
               = tr' @ [LogShutdownStarted, Shutdown (length pre'), WgDone, LogShutdownComplete]"
    by blast
qed

theorem shutdown_intent_is_the_only_exit_witness:
  "RunServer example_rp (Some {})
     [example_it ''/upload'' FromReloadRequested, example_it ''/upload'' FromDone,
      example_it ''/upload'' FromReloadRequested]
   = ([Handle ''/upload'', Handle ''/upload/'', LogMounted ''/upload'',
       Go [Run 0], Started 0, Go [LogConfigReload, Shutdown 0],
       Go [Run 1], Started 1, LogShutdownStarted, Shutdown 1, WgDone, LogShutdownComplete],
      Returned)"
  using shutdown_intent_is_the_only_exit
    [where rp = example_rp and rt = "Some {}"
       and pre = "[example_it ''/upload'' FromReloadRequested]"
       and past = "[Handle ''/upload'', Handle ''/upload/'', LogMounted ''/upload'',
                   Go [Run 0], Started 0, Go [LogConfigReload, Shutdown 0]]"
       and regs = "{''/upload''}" and ?rt1.0 = "Some {''/upload/'', ''/upload''}"
       and it = "example_it ''/upload'' FromDone"
       and ms = "[]" and regs' = "{''/upload''}" and ?rt2.0 = "Some {''/upload/'', ''/upload''}"
       and post = "[example_it ''/upload'' FromReloadRequested]"]
  by (simp add: runLoop_def mount_def ServeMux_Handle_def serve_def startup_def
        shouldRestart_def load_def HasSuffix_def)

text \<open>
  C2. An iteration reached by the loop whose instance has started and whose
  \<^verbatim>\<open>select\<close> receives from \<^verbatim>\<open>reloadRequested\<close> launches a goroutine that logs
  the reload and calls \<^verbatim>\<open>Shutdown\<close> on the old instance, and goes on at once with the
  next iteration, which creates the next instance. The loop does not wait for that
  \<^verbatim>\<open>Shutdown\<close>: whether it ever returns changes nothing in what the loop does.
\<close>

theorem reload_intent_restarts_without_waiting:
  "runLoop rp rt pre = (past, regs, rt1, Continues) \<and> started it
     \<and> selected it = FromReloadRequested
     \<and> mount rp rt1 regs (cfg it) = (ms, regs', rt2, None) \<longrightarrow>
     runLoop rp rt (pre @ it # post) =
       (case runLoop_from rp rt2 regs' (Suc (length pre)) post of
          (tr, rs, rt', out) \<Rightarrow>
            (past @ load it @ ms @ startup rt2 (length pre) it
               @ [Go [LogConfigReload, Shutdown (length pre)]] @ tr, rs, rt', out))
     \<and> runLoop rp rt (pre @ it\<lparr>shutdownReturns := b\<rparr> # post) = runLoop rp rt (pre @ it # post)"
proof
  assume a: "runLoop rp rt pre = (past, regs, rt1, Continues) \<and> started it
     \<and> selected it = FromReloadRequested
     \<and> mount rp rt1 regs (cfg it) = (ms, regs', rt2, None)"
  then have pre: "runLoop rp rt pre = (past, regs, rt1, Continues)"
    and m: "mount rp rt1 regs (cfg it) = (ms, regs', rt2, None)"
    and st: "started it" and sel: "selected it = FromReloadRequested" by simp_all
  have sv: "serve rt2 (length pre) (it\<lparr>shutdownReturns := c\<rparr>)
      = (startup rt2 (length pre) it @ [Go [LogConfigReload, Shutdown (length pre)]], Inr True)"
    for c
    using st sel by (simp add: serve_def shouldRestart_def startup_def)
  have head: "runLoop_from rp rt1 regs (length pre) (it\<lparr>shutdownReturns := c\<rparr> # post) =
      (case runLoop_from rp rt2 regs' (Suc (length pre)) post of
         (tr, rs, rt', out) \<Rightarrow>
           (load it @ ms @ startup rt2 (length pre) it
              @ [Go [LogConfigReload, Shutdown (length pre)]] @ tr, rs, rt', out))" for c
    using m sv[of c] by (simp add: load_def)
  have all: "runLoop rp rt (pre @ it\<lparr>shutdownReturns := c\<rparr> # post) =
       (case runLoop_from rp rt2 regs' (Suc (length pre)) post of
          (tr, rs, rt', out) \<Rightarrow>
            (past @ load it @ ms @ startup rt2 (length pre) it
               @ [Go [LogConfigReload, Shutdown (length pre)]] @ tr, rs, rt', out))" for c
    unfolding runLoop_append[OF pre] head by (simp split: prod.splits)
  from all[of "shutdownReturns it"] all[of b]
  show "runLoop rp rt (pre @ it # post) =
       (case runLoop_from rp rt2 regs' (Suc (length pre)) post of
          (tr, rs, rt', out) \<Rightarrow>
            (past @ load it @ ms @ startup rt2 (length pre) it
               @ [Go [LogConfigReload, Shutdown (length pre)]] @ tr, rs, rt', out))
     \<and> runLoop rp rt (pre @ it\<lparr>shutdownReturns := b\<rparr> # post) = runLoop rp rt (pre @ it # post)"
    by simp
qed

theorem reload_intent_restarts_without_waiting_witness:
  "runLoop example_rp (Some {})
     [example_it ''/upload'' FromReloadRequested, example_it ''/upload'' FromReloadRequested]
   = ([Handle ''/upload'', Handle ''/upload/'', LogMounted ''/upload'',
       Go [Run 0], Started 0, Go [LogConfigReload, Shutdown 0],
       Go [Run 1], Started 1, Go [LogConfigReload, Shutdown 1]],
      {''/upload''}, Some {''/upload/'', ''/upload''}, Continues)
   \<and> runLoop example_rp (Some {})
     [example_it ''/upload'' FromReloadRequested,
      (example_it ''/upload'' FromReloadRequested)\<lparr>shutdownReturns := False\<rparr>]
   = runLoop example_rp (Some {})
     [example_it ''/upload'' FromReloadRequested, example_it ''/upload'' FromReloadRequested]"
  using reload_intent_restarts_without_waiting
    [where rp = example_rp and rt = "Some {}"
       and pre = "[example_it ''/upload'' FromReloadRequested]"
       and past = "[Handle ''/upload'', Handle ''/upload/'', LogMounted ''/upload'',
                   Go [Run 0], Started 0, Go [LogConfigReload, Shutdown 0]]"
       and regs = "{''/upload''}" and ?rt1.0 = "Some {''/upload/'', ''/upload''}"
       and it = "example_it ''/upload'' FromReloadRequested"
       and ms = "[]" and regs' = "{''/upload''}" and ?rt2.0 = "Some {''/upload/'', ''/upload''}"
       and post = "[]" and b = False]
  by (simp add: runLoop_def mount_def ServeMux_Handle_def serve_def startup_def
        shouldRestart_def load_def HasSuffix_def)

text \<open>
  C3. An iteration reached by the loop whose instance has started and whose
  \<^verbatim>\<open>select\<close> receives an error from \<^verbatim>\<open>errChan\<close>: when the error is
  \<^verbatim>\<open>http.ErrServerClosed\<close> the loop prints it and goes on with the next iteration,
  which creates the next instance; any other error is printed and logged with
  \<^verbatim>\<open>log.Fatal\<close>, and the process exits there, whatever inputs would come next.
\<close>

theorem instance_failure_restarts_or_is_fatal:
  "runLoop rp rt pre = (past, regs, rt1, Continues) \<and> started it
     \<and> selected it = FromErrChan err
     \<and> mount rp rt1 regs (cfg it) = (ms, regs', rt2, None) \<longrightarrow>
     (err = ErrServerClosed \<longrightarrow>
        runLoop rp rt (pre @ it # post) =
          (case runLoop_from rp rt2 regs' (Suc (length pre)) post of
             (tr, rs, rt', out) \<Rightarrow>
               (past @ load it @ ms @ startup rt2 (length pre) it @ [PrintErr err] @ tr,
                rs, rt', out)))
     \<and> (err \<noteq> ErrServerClosed \<longrightarrow>
        RunServer rp rt (pre @ it # post) =
          (past @ load it @ ms @ startup rt2 (length pre) it @ [PrintErr err, LogFatal err],
           Exited))"
proof
  assume a: "runLoop rp rt pre = (past, regs, rt1, Continues) \<and> started it
     \<and> selected it = FromErrChan err
     \<and> mount rp rt1 regs (cfg it) = (ms, regs', rt2, None)"
  then have pre: "runLoop rp rt pre = (past, regs, rt1, Continues)"
    and m: "mount rp rt1 regs (cfg it) = (ms, regs', rt2, None)"
    and st: "started it" and sel: "selected it = FromErrChan err" by simp_all
  have closed: "runLoop rp rt (pre @ it # post) =
          (case runLoop_from rp rt2 regs' (Suc (length pre)) post of
             (tr, rs, rt', out) \<Rightarrow>
               (past @ load it @ ms @ startup rt2 (length pre) it @ [PrintErr err] @ tr,
                rs, rt', out))"
    if e: "err = ErrServerClosed"
  proof -
    have "serve rt2 (length pre) it = (startup rt2 (length pre) it @ [PrintErr err], Inr True)"
      using st sel e by (simp add: serve_def shouldRestart_def)
    with m have "runLoop_from rp rt1 regs (length pre) (it # post) =
        (case runLoop_from rp rt2 regs' (Suc (length pre)) post of
           (tr, rs, rt', out) \<Rightarrow>
             (load it @ ms @ startup rt2 (length pre) it @ [PrintErr err] @ tr, rs, rt', out))"
      by simp
    then show ?thesis unfolding runLoop_append[OF pre] by (simp split: prod.splits)
  qed
  have fatal: "RunServer rp rt (pre @ it # post) =
          (past @ load it @ ms @ startup rt2 (length pre) it @ [PrintErr err, LogFatal err],
           Exited)"
    if e: "err \<noteq> ErrServerClosed"
  proof -
    have "serve rt2 (length pre) it
        = (startup rt2 (length pre) it @ [PrintErr err, LogFatal err], Inl Exited)"
      using st sel e by (simp add: serve_def shouldRestart_def)
    with m have "runLoop_from rp rt1 regs (length pre) (it # post) =
        (load it @ ms @ startup rt2 (length pre) it @ [PrintErr err, LogFatal err],
         regs', rt2, Exited)"
      by simp
    then show ?thesis unfolding RunServer_eq runLoop_append[OF pre] by simp
  qed
  from closed fatal show "(err = ErrServerClosed \<longrightarrow>
        runLoop rp rt (pre @ it # post) =
          (case runLoop_from rp rt2 regs' (Suc (length pre)) post of
             (tr, rs, rt', out) \<Rightarrow>
               (past @ load it @ ms @ startup rt2 (length pre) it @ [PrintErr err] @ tr,
                rs, rt', out)))
     \<and> (err \<noteq> ErrServerClosed \<longrightarrow>
        RunServer rp rt (pre @ it # post) =
          (past @ load it @ ms @ startup rt2 (length pre) it @ [PrintErr err, LogFatal err],
           Exited))"
    by blast
qed

theorem instance_failure_restarts_or_is_fatal_witness:
  "runLoop example_rp None
     [example_it ''/upload'' (FromErrChan ErrServerClosed),
      example_it ''/upload'' (FromErrChan (OtherError ''listen: address in use''))]
   = ([Go [Run 0], Started 0, LogListening '':8088'', PrintErr ErrServerClosed,
       Go [Run 1], Started 1, LogListening '':8088'',
       PrintErr (OtherError ''listen: address in use''),
       LogFatal (OtherError ''listen: address in use'')],
      {}, None, Exited)
   \<and> RunServer example_rp None
     [example_it ''/upload'' (FromErrChan (OtherError ''listen: address in use'')),
      example_it ''/upload'' FromDone]
   = ([Go [Run 0], Started 0, LogListening '':8088'',
       PrintErr (OtherError ''listen: address in use''),
       LogFatal (OtherError ''listen: address in use'')],
      Exited)"
  using instance_failure_restarts_or_is_fatal
    [where rp = example_rp and rt = None and pre = "[]" and past = "[]" and regs = "{}"
       and ?rt1.0 = None and ?rt2.0 = None
       and it = "example_it ''/upload'' (FromErrChan ErrServerClosed)"
       and err = ErrServerClosed and ms = "[]" and regs' = "{}"
       and post = "[example_it ''/upload'' (FromErrChan (OtherError ''listen: address in use''))]"]
    instance_failure_restarts_or_is_fatal
    [where rp = example_rp and rt = None and pre = "[]" and past = "[]" and regs = "{}"
       and ?rt1.0 = None and ?rt2.0 = None
       and it = "example_it ''/upload'' (FromErrChan (OtherError ''listen: address in use''))"
       and err = "OtherError ''listen: address in use''" and ms = "[]" and regs' = "{}"
       and post = "[example_it ''/upload'' FromDone]"]
  by (simp add: runLoop_def mount_def serve_def startup_def shouldRestart_def load_def)

subsection \<open>Which instances are run\<close>

text \<open>
  The goroutines are launched by \<^verbatim>\<open>serve\<close> only, and the instance \<open>k\<close> is run by
  the iteration number \<open>k\<close> and no other.
\<close>

lemma Run_load: "Go as \<notin> set (load it)"
  by (simp add: load_def split: option.splits)

lemma Run_mount: "mount rp rt regs c = (ms, regs', rt', po) \<Longrightarrow> Go as \<notin> set ms"
  by (auto simp: mount_def split: option.splits sum.splits if_splits)

lemma Run_serve: "Go [Run k] \<in> set (fst (serve rt i it)) \<Longrightarrow> k = i"
  by (auto simp: serve_def startup_def shouldRestart_def
        split: if_splits event.splits prod.splits)

lemma Run_runLoop_from:
  "Go [Run k] \<in> set (fst (runLoop_from rp rt regs i its)) \<Longrightarrow> i \<le> k \<and> k < i + length its"
proof (induction its arbitrary: rt regs i)
  case Nil
  then show ?case by simp
next
  case (Cons it its)
  show ?case
  proof (cases rule: runLoop_from_Cons_cases[of rp rt regs it i its])
    case (panic ms regs' rt' out)
    with Cons.prems Run_load Run_mount[OF panic(1)] show ?thesis by simp
  next
    case (halt ms regs' rt' ss out)
    with Cons.prems Run_load Run_mount[OF halt(1)] Run_serve[of k rt' i it]
    show ?thesis by auto
  next
    case (return ms regs' rt' ss)
    with Cons.prems Run_load Run_mount[OF return(1)] Run_serve[of k rt' i it]
    show ?thesis by auto
  next
    case (restart ms regs' rt' ss tr rs rt'' out)
    with Cons.prems Run_load Run_mount[OF restart(1)] Run_serve[of k rt' i it]
    have "k = i \<or> Go [Run k] \<in> set tr" by auto
    with Cons.IH[of rt' regs' "Suc i"] restart(3) show ?thesis by auto
  qed
qed

text \<open>
  C5. With a parent router, an iteration reached by the loop whose base path
  \<^verbatim>\<open>routePrefixFromBasePath\<close> refuses panics with that error: the process crashes
  there, whatever inputs would come next, and the instance of that iteration is never
  run.
\<close>

theorem invalid_base_path_panics_before_start:
  "runLoop rp (Some m) pre = (past, regs, rt1, Continues)
     \<and> rp (BasePath (cfg it)) = Inl err \<longrightarrow>
     RunServer rp (Some m) (pre @ it # post) = (past @ load it, Panicked err)
     \<and> Go [Run (length pre)] \<notin> set (past @ load it)"
proof
  assume a: "runLoop rp (Some m) pre = (past, regs, rt1, Continues)
     \<and> rp (BasePath (cfg it)) = Inl err"
  then have pre: "runLoop rp (Some m) pre = (past, regs, rt1, Continues)"
    and e: "rp (BasePath (cfg it)) = Inl err" by simp_all
  from runLoop_from_router[of rp "Some m" "{}" 0 pre] pre
  obtain m1 where rt1: "rt1 = Some m1" by (auto simp: runLoop_def)
  have "mount rp rt1 regs (cfg it) = ([], regs, rt1, Some (Panicked err))"
    using e rt1 by (simp add: mount_def)
  then have "runLoop_from rp rt1 regs (length pre) (it # post)
      = (load it, regs, rt1, Panicked err)"
    by simp
  then have 1: "RunServer rp (Some m) (pre @ it # post) = (past @ load it, Panicked err)"
    unfolding RunServer_eq runLoop_append[OF pre] by simp
  have "Go [Run (length pre)] \<notin> set past"
    using Run_runLoop_from[of "length pre" rp "Some m" "{}" 0 pre] pre
    by (auto simp: runLoop_def)
  with Run_load have 2: "Go [Run (length pre)] \<notin> set (past @ load it)" by simp
  from 1 2 show "RunServer rp (Some m) (pre @ it # post) = (past @ load it, Panicked err)
     \<and> Go [Run (length pre)] \<notin> set (past @ load it)" by simp
qed

theorem invalid_base_path_panics_before_start_witness:
  "RunServer example_rp (Some {})
     [example_it ''/upload'' FromReloadRequested, example_it '''' FromReloadRequested,
      example_it ''/upload'' FromDone]
   = ([Handle ''/upload'', Handle ''/upload/'', LogMounted ''/upload'',
       Go [Run 0], Started 0, Go [LogConfigReload, Shutdown 0]],
      Panicked (OtherError ''empty base path''))"
  using invalid_base_path_panics_before_start
    [where rp = example_rp and m = "{}"
       and pre = "[example_it ''/upload'' FromReloadRequested]"
       and past = "[Handle ''/upload'', Handle ''/upload/'', LogMounted ''/upload'',
                   Go [Run 0], Started 0, Go [LogConfigReload, Shutdown 0]]"
       and regs = "{''/upload''}" and ?rt1.0 = "Some {''/upload/'', ''/upload''}"
       and it = "example_it '''' FromReloadRequested"
       and err = "OtherError ''empty base path''"
       and post = "[example_it ''/upload'' FromDone]"]
  by (simp add: runLoop_def mount_def ServeMux_Handle_def serve_def startup_def
        shouldRestart_def load_def HasSuffix_def)

text \<open>
  C6, as the claim states it, says that an iteration whose \<^verbatim>\<open>Load\<close> fails always
  goes on to start the new instance, whatever configuration the loader left behind. It
  does not when there is a parent router and the configuration left behind has a base
  path \<^verbatim>\<open>routePrefixFromBasePath\<close> refuses: the failure is logged, then line 79 panics,
  and no instance is run.
\<close>

theorem load_failure_then_invalid_base_path_panics:
  "RunServer example_rp (Some {})
     [(example_it '''' FromReloadRequested)\<lparr>loadErr := Some (OtherError ''no such file'')\<rparr>]
   = ([LogLoadFailed (OtherError ''no such file'')], Panicked (OtherError ''empty base path''))"
  by (simp add: RunServer_def runLoop_def mount_def load_def)

text \<open>
  C6, amended. In any iteration of the loop (any instance number, any set of
  registered prefixes, any parent router) where \<^verbatim>\<open>Load\<close> returns an error, the
  error is logged and the run is otherwise the one of the same inputs with no load error
  and the same configuration state: same calls after the log, same registered prefixes,
  same parent router, same end. So the load error by itself never halts the loop. The
  instance of the iteration is run when the mounting step completes, which it always
  does with no parent router; when the mounting step panics (the base path is refused,
  or the parent router refuses the pattern), the process crashes there and the instance
  is not run.
\<close>

theorem config_load_failure_is_logged_and_not_fatal:
  "loadErr it = Some err \<longrightarrow>
     runLoop_from rp rt regs i (it # post) =
       (case runLoop_from rp rt regs i (it\<lparr>loadErr := None\<rparr> # post) of
          (tr, rs, rt', out) \<Rightarrow> (LogLoadFailed err # tr, rs, rt', out))
     \<and> (mount rp rt regs (cfg it) = (ms, regs', rt1, None) \<longrightarrow>
          (\<exists>tr. fst (runLoop_from rp rt regs i (it # post))
                 = LogLoadFailed err # ms @ Go [Run i] # tr))
     \<and> (rt = None \<longrightarrow>
          (\<exists>tr. fst (runLoop_from rp rt regs i (it # post))
                 = LogLoadFailed err # Go [Run i] # tr))
     \<and> (mount rp rt regs (cfg it) = (ms, regs', rt1, Some out) \<longrightarrow>
          runLoop_from rp rt regs i (it # post) = (LogLoadFailed err # ms, regs', rt1, out)
          \<and> Go [Run i] \<notin> set (LogLoadFailed err # ms))"
proof
  assume e: "loadErr it = Some err"
  have sv: "serve r i (it\<lparr>loadErr := None\<rparr>) = serve r i it" for r
    by (simp add: serve_def startup_def shouldRestart_def)
  have ld: "load it = [LogLoadFailed err]" "load (it\<lparr>loadErr := None\<rparr>) = []"
    using e by (simp_all add: load_def)
  have 1: "runLoop_from rp rt regs i (it # post) =
       (case runLoop_from rp rt regs i (it\<lparr>loadErr := None\<rparr> # post) of
          (tr, rs, rt', out) \<Rightarrow> (LogLoadFailed err # tr, rs, rt', out))"
    by (simp add: sv ld split: sum.splits prod.splits bool.splits option.splits)
  have 2: "\<exists>tr. fst (runLoop_from rp rt regs i (it # post))
                 = LogLoadFailed err # ms @ Go [Run i] # tr"
    if m: "mount rp rt regs (cfg it) = (ms, regs', rt1, None)" for ms regs' rt1
  proof -
    obtain ss r where s: "serve rt1 i it = (ss, r)" by (cases "serve rt1 i it")
    then obtain ss' where ss: "ss = Go [Run i] # ss'"
      by (auto simp: serve_def startup_def split: if_splits prod.splits)
    show ?thesis using m s ss ld
      by (cases r) (auto split: prod.splits bool.splits)
  qed
  have 3: "\<exists>tr. fst (runLoop_from rp rt regs i (it # post))
                 = LogLoadFailed err # Go [Run i] # tr"
    if n: "rt = None"
  proof -
    have "mount rp rt regs (cfg it) = ([], regs, None, None)" using n by (simp add: mount_def)
    from 2[OF this] show ?thesis by simp
  qed
  have 4: "runLoop_from rp rt regs i (it # post) = (LogLoadFailed err # ms, regs', rt1, out)
          \<and> Go [Run i] \<notin> set (LogLoadFailed err # ms)"
    if m: "mount rp rt regs (cfg it) = (ms, regs', rt1, Some out)"
    using m ld Run_mount[OF m, of "[Run i]"] by simp
  from 1 2 3 4 show "runLoop_from rp rt regs i (it # post) =
       (case runLoop_from rp rt regs i (it\<lparr>loadErr := None\<rparr> # post) of
          (tr, rs, rt', out) \<Rightarrow> (LogLoadFailed err # tr, rs, rt', out))
     \<and> (mount rp rt regs (cfg it) = (ms, regs', rt1, None) \<longrightarrow>
          (\<exists>tr. fst (runLoop_from rp rt regs i (it # post))
                 = LogLoadFailed err # ms @ Go [Run i] # tr))
     \<and> (rt = None \<longrightarrow>
          (\<exists>tr. fst (runLoop_from rp rt regs i (it # post))
                 = LogLoadFailed err # Go [Run i] # tr))
     \<and> (mount rp rt regs (cfg it) = (ms, regs', rt1, Some out) \<longrightarrow>
          runLoop_from rp rt regs i (it # post) = (LogLoadFailed err # ms, regs', rt1, out)
          \<and> Go [Run i] \<notin> set (LogLoadFailed err # ms))"
    by blast
qed

theorem config_load_failure_is_logged_and_not_fatal_witness:
  "runLoop_from example_rp (Some {}) {} 0
     [(example_it ''/files'' FromReloadRequested)\<lparr>loadErr := Some (OtherError ''no such file'')\<rparr>,
      (example_it ''/files'' FromDone)\<lparr>loadErr := Some (OtherError ''no such file'')\<rparr>]
   = ([LogLoadFailed (OtherError ''no such file''),
       Handle ''/files'', Handle ''/files/'', LogMounted ''/files'',
       Go [Run 0], Started 0, Go [LogConfigReload, Shutdown 0],
       LogLoadFailed (OtherError ''no such file''),
       Go [Run 1], Started 1, LogShutdownStarted, Shutdown 1, WgDone],
      {''/files''}, Some {''/files/'', ''/files''}, Returned)
   \<and> runLoop_from example_rp (Some {}) {} 0
     [(example_it '''' FromReloadRequested)\<lparr>loadErr := Some (OtherError ''no such file'')\<rparr>,
      example_it ''/files'' FromDone]
   = ([LogLoadFailed (OtherError ''no such file'')], {}, Some {},
      Panicked (OtherError ''empty base path''))"
  using config_load_failure_is_logged_and_not_fatal
    [where rp = example_rp and rt = "Some {}" and regs = "{}" and i = 0
       and it = "(example_it ''/files'' FromReloadRequested)\<lparr>loadErr := Some (OtherError ''no such file'')\<rparr>"
       and err = "OtherError ''no such file''"
       and post = "[(example_it ''/files'' FromDone)\<lparr>loadErr := Some (OtherError ''no such file'')\<rparr>]"
       and ms = "[Handle ''/files'', Handle ''/files/'', LogMounted ''/files'']"
       and regs' = "{''/files''}" and ?rt1.0 = "Some {''/files/'', ''/files''}"]
    config_load_failure_is_logged_and_not_fatal
    [where rp = example_rp and rt = "Some {}" and regs = "{}" and i = 0
       and it = "(example_it '''' FromReloadRequested)\<lparr>loadErr := Some (OtherError ''no such file'')\<rparr>"
       and err = "OtherError ''no such file''"
       and post = "[example_it ''/files'' FromDone]"
       and ms = "[]" and regs' = "{}" and ?rt1.0 = "Some {}"
       and out = "Panicked (OtherError ''empty base path'')"]
  by (simp add: mount_def ServeMux_Handle_def serve_def startup_def shouldRestart_def load_def
        HasSuffix_def)

subsection \<open>No parent router\<close>

text \<open>
  With \<^verbatim>\<open>parentRouter\<close> nil the mounting step is the identity, so the loop is the
  sequence of \<^verbatim>\<open>load\<close> and \<^verbatim>\<open>serve\<close>. The lemmas on \<open>LogListening\<close> split
  a trace at an occurrence of the event and walk through what stands before it.
\<close>

lemma standalone_mount: "mount rp None regs c = ([], regs, None, None)"
  by (simp add: mount_def)

lemma standalone_runLoop_from:
  "runLoop_from rp None regs i (it # its) =
     (case serve None i it of
        (ss, Inl out) \<Rightarrow> (load it @ ss, regs, None, out)
      | (ss, Inr False) \<Rightarrow> (load it @ ss, regs, None, Returned)
      | (ss, Inr True) \<Rightarrow>
          (case runLoop_from rp None regs (Suc i) its of
             (tr, rs, rt', out) \<Rightarrow> (load it @ ss @ tr, rs, rt', out)))"
  by (simp add: standalone_mount split: prod.splits sum.splits bool.splits)

lemma standalone_any_rp:
  "runLoop_from rp None regs i its = runLoop_from rp' None regs i its"
proof (induction its arbitrary: i)
  case Nil
  show ?case by simp
next
  case (Cons it its)
  show ?case unfolding standalone_runLoop_from Cons.IH ..
qed

lemma standalone_regs: "fst (snd (runLoop_from rp None regs i its)) = regs"
proof (induction its arbitrary: i)
  case Nil
  show ?case by simp
next
  case (Cons it its)
  obtain ss r where s: "serve None i it = (ss, r)" by (cases "serve None i it")
  show ?case
  proof (cases r)
    case (Inl out)
    with s show ?thesis by (simp add: standalone_mount)
  next
    case (Inr b)
    with s Cons.IH[of "Suc i"] show ?thesis
      by (cases b; cases "runLoop_from rp None regs (Suc i) its") (simp_all add: standalone_mount)
  qed
qed

lemma standalone_no_panic:
  "snd (snd (snd (runLoop_from rp None regs i its))) \<noteq> Panicked err
   \<and> snd (snd (snd (runLoop_from rp None regs i its))) \<noteq> HandlePanicked msg"
proof (induction its arbitrary: i)
  case Nil
  show ?case by simp
next
  case (Cons it its)
  obtain ss r where s: "serve None i it = (ss, r)" by (cases "serve None i it")
  show ?case
  proof (cases r)
    case (Inl out)
    with s serve_Inl[of None i it ss out] show ?thesis by (auto simp: standalone_mount)
  next
    case (Inr b)
    with s Cons.IH[of "Suc i"] show ?thesis
      by (cases b; cases "runLoop_from rp None regs (Suc i) its") (simp_all add: standalone_mount)
  qed
qed

lemma no_Handle_serve:
  "Handle p \<notin> set (fst (serve rt i it)) \<and> LogMounted p \<notin> set (fst (serve rt i it))"
  by (auto simp: serve_def startup_def shouldRestart_def
        split: if_splits event.splits prod.splits)

lemma no_Handle_load: "Handle p \<notin> set (load it) \<and> LogMounted p \<notin> set (load it)"
  by (simp add: load_def split: option.splits)

lemma standalone_no_Handle:
  "Handle p \<notin> set (fst (runLoop_from rp None regs i its))
   \<and> LogMounted p \<notin> set (fst (runLoop_from rp None regs i its))"
proof (induction its arbitrary: i)
  case Nil
  show ?case by simp
next
  case (Cons it its)
  obtain ss r where s: "serve None i it = (ss, r)" by (cases "serve None i it")
  have ss: "Handle p \<notin> set ss \<and> LogMounted p \<notin> set ss"
    using no_Handle_serve[of p None i it] s by simp
  show ?case
  proof (cases r)
    case (Inl out)
    with s ss no_Handle_load[of p it] show ?thesis by (simp add: standalone_mount)
  next
    case (Inr b)
    with s ss no_Handle_load[of p it] Cons.IH[of "Suc i"] show ?thesis
      by (cases b; cases "runLoop_from rp None regs (Suc i) its") (simp_all add: standalone_mount)
  qed
qed

lemma listening_Cons:
  "(\<And>b. x \<noteq> LogListening b) \<Longrightarrow> x # tr = xs @ LogListening a # ys \<Longrightarrow>
   \<exists>xs'. xs = x # xs' \<and> tr = xs' @ LogListening a # ys"
  by (cases xs) auto

lemma listening_append:
  "(\<And>b. LogListening b \<notin> set pre) \<Longrightarrow> pre @ tr = xs @ LogListening a # ys \<Longrightarrow>
   \<exists>xs'. xs = pre @ xs' \<and> tr = xs' @ LogListening a # ys"
proof (induction pre arbitrary: xs)
  case Nil
  then show ?case by simp
next
  case (Cons x pre)
  from Cons.prems(1) have x: "\<And>b. x \<noteq> LogListening b" by auto
  from Cons.prems(2) have "x # (pre @ tr) = xs @ LogListening a # ys" by simp
  from listening_Cons[OF x this] obtain xs1 where xs: "xs = x # xs1"
    and t: "pre @ tr = xs1 @ LogListening a # ys" by blast
  from Cons.prems(1) have "\<And>b. LogListening b \<notin> set pre" by auto
  from Cons.IH[OF this t] xs show ?case by auto
qed

lemma listening_load: "LogListening b \<notin> set (load it)"
  by (simp add: load_def split: option.splits)

lemma listening_shouldRestart: "LogListening b \<notin> set (fst (shouldRestart i it))"
  by (simp add: shouldRestart_def split: event.splits)

lemma standalone_listening_after_started:
  "fst (runLoop_from rp None regs i its) = xs @ LogListening a # ys \<Longrightarrow>
   \<exists>zs k. xs = zs @ [Started k] \<and> i \<le> k \<and> k < i + length its
      \<and> a = ListenAddress (cfg (its ! (k - i)))"
proof (induction its arbitrary: i xs)
  case Nil
  then show ?case by simp
next
  case (Cons it its)
  show ?case
  proof (cases "started it")
    case False
    then have "fst (runLoop_from rp None regs i (it # its)) = load it @ [Go [Run i]]"
      by (simp add: standalone_mount serve_def)
    with Cons.prems have "load it @ [Go [Run i]] = xs @ LogListening a # ys" by simp
    then have "LogListening a \<in> set (load it @ [Go [Run i]])" by simp
    with listening_load show ?thesis by simp
  next
    case True
    obtain as r where sr: "shouldRestart i it = (as, r)" by (cases "shouldRestart i it")
    have as: "\<And>b. LogListening b \<notin> set as" using listening_shouldRestart[of _ i it] sr by simp
    define T where "T = (if r = Inr True then fst (runLoop_from rp None regs (Suc i) its) else [])"
    have tr: "fst (runLoop_from rp None regs i (it # its))
        = (load it @ [Go [Run i]]) @ Started i # LogListening (ListenAddress (cfg it)) # as @ T"
    proof (cases r)
      case (Inl out)
      with True sr show ?thesis by (simp add: standalone_mount serve_def startup_def T_def)
    next
      case (Inr b)
      with True sr show ?thesis
        by (cases b; cases "runLoop_from rp None regs (Suc i) its")
           (simp_all add: standalone_mount serve_def startup_def T_def)
    qed
    have "\<And>b. LogListening b \<notin> set (load it @ [Go [Run i]])" using listening_load by simp
    from listening_append[OF this] tr Cons.prems
    obtain xs1 where xs: "xs = (load it @ [Go [Run i]]) @ xs1"
      and t1: "Started i # LogListening (ListenAddress (cfg it)) # as @ T = xs1 @ LogListening a # ys"
      by metis
    from listening_Cons[OF _ t1] obtain xs2 where xs1: "xs1 = Started i # xs2"
      and t2: "LogListening (ListenAddress (cfg it)) # as @ T = xs2 @ LogListening a # ys"
      by auto
    show ?thesis
    proof (cases xs2)
      case Nil
      with t2 have "a = ListenAddress (cfg it)" by simp
      moreover have "xs = (load it @ [Go [Run i]]) @ [Started i]" using xs xs1 Nil by simp
      ultimately show ?thesis by auto
    next
      case (Cons x xs3)
      with t2 have t3: "as @ T = xs3 @ LogListening a # ys" by simp
      from listening_append[OF as t3] obtain xs4 where xs3: "xs3 = as @ xs4"
        and t4: "T = xs4 @ LogListening a # ys" by blast
      from t4 have "T \<noteq> []" by simp
      then have T: "T = fst (runLoop_from rp None regs (Suc i) its)"
        by (simp add: T_def split: if_splits)
      from Cons.IH[of "Suc i" xs4] T t4
      obtain zs k where z: "xs4 = zs @ [Started k]" and k: "Suc i \<le> k" "k < Suc i + length its"
        and a: "a = ListenAddress (cfg (its ! (k - Suc i)))" by auto
      have "xs = (load it @ [Go [Run i]] @ Started i # x # as @ zs) @ [Started k]"
        using xs xs1 Cons xs3 z by simp
      moreover have "(it # its) ! (k - i) = its ! (k - Suc i)" using k by (simp add: nth_Cons')
      ultimately show ?thesis using k a by (metis Suc_leD length_Cons add_Suc_shift)
    qed
  qed
qed

text \<open>
  C10. With no parent router (\<^verbatim>\<open>RunServer\<close> called with a nil router) the mounting step
  does nothing in any iteration: \<^verbatim>\<open>routePrefixFromBasePath\<close> is never consulted (the
  run is the same for any such function), the set of registered prefixes stays empty,
  no \<^verbatim>\<open>Handle\<close> call and no mount event occurs, and the run never ends in the panic of
  line 79 nor in a panic of \<^verbatim>\<open>Handle\<close>. Each listen-address event of the trace comes
  directly after the receive from the started channel of an instance, with the listen
  address of that instance's configuration, and every iteration reached whose instance
  starts emits it.
\<close>

theorem standalone_never_mounts:
  "mount rp None regs c = ([], regs, None, None)
   \<and> runLoop rp None its = runLoop rp' None its
   \<and> fst (snd (runLoop rp None its)) = {}
   \<and> Handle p \<notin> set (fst (RunServer rp None its))
   \<and> LogMounted p \<notin> set (fst (RunServer rp None its))
   \<and> snd (RunServer rp None its) \<noteq> Panicked err
   \<and> snd (RunServer rp None its) \<noteq> HandlePanicked msg
   \<and> (fst (RunServer rp None its) = xs @ LogListening a # ys \<longrightarrow>
        (\<exists>zs k. xs = zs @ [Started k] \<and> k < length its \<and> a = ListenAddress (cfg (its ! k))))
   \<and> (runLoop rp None pre = (past, regs', rt1, Continues) \<and> started it \<longrightarrow>
        (\<exists>tr. fst (RunServer rp None (pre @ it # post))
               = past @ load it
                 @ [Go [Run (length pre)], Started (length pre),
                    LogListening (ListenAddress (cfg it))] @ tr))"
proof (intro conjI impI)
  show "mount rp None regs c = ([], regs, None, None)" by (rule standalone_mount)
  show "runLoop rp None its = runLoop rp' None its"
    unfolding runLoop_def by (rule standalone_any_rp)
  show "fst (snd (runLoop rp None its)) = {}"
    unfolding runLoop_def by (rule standalone_regs)
  show "Handle p \<notin> set (fst (RunServer rp None its))"
    using standalone_no_Handle[of p rp "{}" 0 its] by (simp add: RunServer_trace runLoop_def)
  show "LogMounted p \<notin> set (fst (RunServer rp None its))"
    using standalone_no_Handle[of p rp "{}" 0 its] by (simp add: RunServer_trace runLoop_def)
  show "snd (RunServer rp None its) \<noteq> Panicked err"
    using standalone_no_panic[of rp "{}" 0 its err] by (simp add: RunServer_outcome runLoop_def)
  show "snd (RunServer rp None its) \<noteq> HandlePanicked msg"
    using standalone_no_panic[of rp "{}" 0 its _ msg]
    by (simp add: RunServer_outcome runLoop_def)
next
  assume a: "fst (RunServer rp None its) = xs @ LogListening a # ys"
  define tr where "tr = fst (runLoop_from rp None {} 0 its)"
  have "\<exists>ys'. tr = xs @ LogListening a # ys'"
  proof (cases "snd (snd (snd (runLoop rp None its))) = Returned")
    case True
    with a have eq: "tr @ [LogShutdownComplete] = xs @ LogListening a # ys"
      by (simp add: RunServer_trace runLoop_def tr_def)
    then obtain ys' where "ys = ys' @ [LogShutdownComplete]"
      by (cases ys rule: rev_cases) auto
    with eq have "tr = xs @ LogListening a # ys'" by simp
    then show ?thesis by blast
  next
    case False
    with a show ?thesis by (simp add: RunServer_trace runLoop_def tr_def)
  qed
  then obtain ys' where "fst (runLoop_from rp None {} 0 its) = xs @ LogListening a # ys'"
    unfolding tr_def by blast
  from standalone_listening_after_started[OF this]
  show "\<exists>zs k. xs = zs @ [Started k] \<and> k < length its \<and> a = ListenAddress (cfg (its ! k))"
    by auto
next
  assume a: "runLoop rp None pre = (past, regs', rt1, Continues) \<and> started it"
  then have pre: "runLoop rp None pre = (past, regs', rt1, Continues)" and st: "started it"
    by simp_all
  from runLoop_from_router[of rp None "{}" 0 pre] pre have rt1: "rt1 = None"
    by (simp add: runLoop_def)
  obtain as r where sr: "shouldRestart (length pre) it = (as, r)"
    by (cases "shouldRestart (length pre) it")
  have "\<exists>tr. fst (runLoop_from rp None regs' (length pre) (it # post))
      = load it @ [Go [Run (length pre)], Started (length pre),
                   LogListening (ListenAddress (cfg it))] @ tr"
  proof (cases r)
    case (Inl out)
    with st sr show ?thesis by (simp add: standalone_mount serve_def startup_def)
  next
    case (Inr b)
    with st sr show ?thesis
      by (cases b; cases "runLoop_from rp None regs' (Suc (length pre)) post")
         (simp_all add: standalone_mount serve_def startup_def)
  qed
  then obtain tr where "fst (runLoop_from rp None regs' (length pre) (it # post))
      = load it @ [Go [Run (length pre)], Started (length pre),
                   LogListening (ListenAddress (cfg it))] @ tr" by blast
  then have "fst (runLoop rp None (pre @ it # post))
      = past @ load it @ [Go [Run (length pre)], Started (length pre),
                   LogListening (ListenAddress (cfg it))] @ tr"
    unfolding runLoop_append[OF pre] rt1
    by (cases "runLoop_from rp None regs' (length pre) (it # post)")
       (simp del: runLoop_from.simps)
  then show "\<exists>tr. fst (RunServer rp None (pre @ it # post))
               = past @ load it
                 @ [Go [Run (length pre)], Started (length pre),
                    LogListening (ListenAddress (cfg it))] @ tr"
    by (simp add: RunServer_trace)
qed

theorem standalone_never_mounts_witness:
  "RunServer (\<lambda>s. Inl (OtherError ''invalid base path'')) None
     [example_it '''' FromReloadRequested, example_it '''' FromDone]
   = ([Go [Run 0], Started 0, LogListening '':8088'', Go [LogConfigReload, Shutdown 0],
       Go [Run 1], Started 1, LogListening '':8088'', LogShutdownStarted, Shutdown 1, WgDone,
       LogShutdownComplete],
      Returned)"
  using standalone_never_mounts
    [where rp = "\<lambda>s. Inl (OtherError ''invalid base path'')" and rp' = example_rp
       and its = "[example_it '''' FromReloadRequested, example_it '''' FromDone]"
       and pre = "[example_it '''' FromReloadRequested]"
       and past = "[Go [Run 0], Started 0, LogListening '':8088'',
                    Go [LogConfigReload, Shutdown 0]]"
       and regs' = "{}" and ?rt1.0 = None and it = "example_it '''' FromDone" and post = "[]"
       and xs = "[Go [Run 0], Started 0]" and a = "'':8088''"
       and ys = "[Go [LogConfigReload, Shutdown 0],
       Go [Run 1], Started 1, LogListening '':8088'', LogShutdownStarted, Shutdown 1, WgDone,
       LogShutdownComplete]"]
  by (simp add: RunServer_def wgCounter_def runLoop_def mount_def serve_def startup_def
        shouldRestart_def load_def)

subsection \<open>Mounting on the parent router\<close>

text \<open>
  What the mounting step does with a prefix that is, or is not, in
  \<^verbatim>\<open>registeredPrefixes\<close>. While every iteration derives the same prefix \<open>p\<close>, and the
  parent router accepts \<open>p\<close> and \<open>p\<close> with the separator appended, the first iteration
  registers \<open>p\<close> (and \<open>p\<close> with the separator appended, unless \<open>p\<close> ends in it) and
  no later iteration calls \<^verbatim>\<open>Handle\<close> at all: the scenario of the base path
  \<^verbatim>\<open>/upload\<close> reloaded three times.
\<close>

lemma mount_registered:
  "rp (BasePath c) = Inr p \<Longrightarrow> p \<in> regs \<Longrightarrow>
   mount rp (Some m) regs c = ([], regs, Some m, None)"
  by (simp add: mount_def)

lemma mount_unregistered:
  "rp (BasePath c) = Inr p \<Longrightarrow> p \<notin> regs \<Longrightarrow> p \<noteq> [] \<Longrightarrow> p \<notin> m \<Longrightarrow> p @ ''/'' \<notin> m \<Longrightarrow>
   mount rp (Some m) regs c =
     (Handle p # (if HasSuffix p ''/'' then [] else [Handle (p @ ''/'')]) @ [LogMounted p],
      insert p regs,
      Some (if HasSuffix p ''/'' then insert p m else insert (p @ ''/'') (insert p m)),
      None)"
  by (simp add: mount_def ServeMux_Handle_def)

lemma registered_prefix_not_mounted_again:
  "\<forall>it \<in> set its. rp (BasePath (cfg it)) = Inr p \<Longrightarrow> p \<in> regs \<Longrightarrow>
   Handle q \<notin> set (fst (runLoop_from rp (Some m) regs i its))"
proof (induction its arbitrary: i)
  case Nil
  show ?case by simp
next
  case (Cons it its)
  from Cons.prems have m: "mount rp (Some m) regs (cfg it) = ([], regs, Some m, None)"
    by (simp add: mount_registered)
  obtain ss r where s: "serve (Some m) i it = (ss, r)" by (cases "serve (Some m) i it")
  have ss: "Handle q \<notin> set ss" using no_Handle_serve[of q "Some m" i it] s by simp
  have ih: "Handle q \<notin> set (fst (runLoop_from rp (Some m) regs (Suc i) its))"
    using Cons.IH[of "Suc i"] Cons.prems by simp
  show ?case
  proof (cases r)
    case (Inl out)
    with m s ss no_Handle_load[of q it] show ?thesis by simp
  next
    case (Inr b)
    with m s ss no_Handle_load[of q it] ih show ?thesis
      by (cases b; cases "runLoop_from rp (Some m) regs (Suc i) its") simp_all
  qed
qed

lemma same_prefix_registered_once:
  assumes all: "\<forall>it \<in> set (it0 # its). rp (BasePath (cfg it)) = Inr p"
    and ok: "p \<noteq> []" "p \<notin> m" "p @ ''/'' \<notin> m"
  shows "count_list (fst (runLoop rp (Some m) (it0 # its))) (Handle p) = 1"
    and "count_list (fst (runLoop rp (Some m) (it0 # its))) (Handle (p @ ''/''))
           = (if HasSuffix p ''/'' then 0 else 1)"
proof -
  define m' where "m' = (if HasSuffix p ''/'' then insert p m else insert (p @ ''/'') (insert p m))"
  from all ok have m: "mount rp (Some m) {} (cfg it0) =
     (Handle p # (if HasSuffix p ''/'' then [] else [Handle (p @ ''/'')]) @ [LogMounted p],
      {p}, Some m', None)"
    unfolding m'_def by (simp add: mount_unregistered)
  obtain ss r where s: "serve (Some m') 0 it0 = (ss, r)" by (cases "serve (Some m') 0 it0")
  have ss: "count_list ss (Handle q) = 0" for q
    using no_Handle_serve[of q "Some m'" 0 it0] s by simp
  have ld: "count_list (load it0) (Handle q) = 0" for q
    using no_Handle_load[of q it0] by simp
  have rest: "count_list (fst (runLoop_from rp (Some m') {p} (Suc 0) its)) (Handle q) = 0" for q
    using registered_prefix_not_mounted_again[of its rp p "{p}" q m' "Suc 0"] all
    by simp
  have ne: "p @ ''/'' \<noteq> p" by simp
  have tr: "\<exists>T. fst (runLoop rp (Some m) (it0 # its))
      = load it0 @ (Handle p # (if HasSuffix p ''/'' then [] else [Handle (p @ ''/'')])
                    @ [LogMounted p]) @ ss @ T \<and> (\<forall>q. count_list T (Handle q) = 0)"
  proof (cases r)
    case (Inl out)
    with m s show ?thesis by (simp add: runLoop_def)
  next
    case (Inr b)
    with m s rest show ?thesis
      by (cases b; cases "runLoop_from rp (Some m') {p} (Suc 0) its")
         (simp_all add: runLoop_def)
  qed
  then obtain T where T: "fst (runLoop rp (Some m) (it0 # its))
      = load it0 @ (Handle p # (if HasSuffix p ''/'' then [] else [Handle (p @ ''/'')])
                    @ [LogMounted p]) @ ss @ T" and T0: "\<And>q. count_list T (Handle q) = 0"
    by blast
  show "count_list (fst (runLoop rp (Some m) (it0 # its))) (Handle p) = 1"
    unfolding T using ss ld T0 ne by simp
  show "count_list (fst (runLoop rp (Some m) (it0 # its))) (Handle (p @ ''/''))
           = (if HasSuffix p ''/'' then 0 else 1)"
    unfolding T using ss ld T0 ne by simp
qed

lemma upload_scenario:
  "RunServer example_rp (Some {})
          [example_it ''/upload'' FromReloadRequested, example_it ''/upload'' FromReloadRequested,
           example_it ''/upload'' FromReloadRequested, example_it ''/upload'' FromDone]
   = ([Handle ''/upload'', Handle ''/upload/'', LogMounted ''/upload'',
       Go [Run 0], Started 0, Go [LogConfigReload, Shutdown 0],
       Go [Run 1], Started 1, Go [LogConfigReload, Shutdown 1],
       Go [Run 2], Started 2, Go [LogConfigReload, Shutdown 2],
       Go [Run 3], Started 3, LogShutdownStarted, Shutdown 3, WgDone, LogShutdownComplete],
      Returned)"
  by (simp add: RunServer_def wgCounter_def runLoop_def mount_def ServeMux_Handle_def serve_def
        startup_def shouldRestart_def load_def HasSuffix_def)

text \<open>
  A prefix the parent router refuses ends the run at the call: the empty prefix is an
  invalid pattern, and no instance is run.
\<close>

lemma empty_prefix_scenario:
  "RunServer Inr (Some {}) [example_it [] FromDone]
   = ([Handle []], HandlePanicked ''http: invalid pattern'')"
  by (simp add: RunServer_def runLoop_def mount_def ServeMux_Handle_def load_def)

text \<open>
  C4. Each prefix is to be registered on the parent router at most once. The loop
  records in \<^verbatim>\<open>registeredPrefixes\<close> the prefix it derived, not the prefix with the
  separator appended that it registers in the same step. So when one iteration derives
  \<^verbatim>\<open>/upload\<close> and a later one, after a reload, derives \<^verbatim>\<open>/upload/\<close>, the pattern
  \<^verbatim>\<open>/upload/\<close> is handed to \<^verbatim>\<open>parentRouter.Handle\<close> twice: first as the prefix with
  the separator appended, then as a prefix of its own. The second call is the seventh
  and last of the run: the router panics on the pattern it already holds, and the
  process crashes.
\<close>

theorem trailing_separator_prefix_registered_twice:
  "take 7 (fst (runLoop example_rp (Some {})
          [example_it ''/upload'' FromReloadRequested, example_it ''/upload/'' FromDone]))
   = [Handle ''/upload'', Handle ''/upload/'', LogMounted ''/upload'',
      Go [Run 0], Started 0, Go [LogConfigReload, Shutdown 0],
      Handle ''/upload/'']
   \<and> count_list (fst (runLoop example_rp (Some {})
          [example_it ''/upload'' FromReloadRequested, example_it ''/upload/'' FromDone]))
        (Handle ''/upload/'') = 2
   \<and> RunServer example_rp (Some {})
          [example_it ''/upload'' FromReloadRequested, example_it ''/upload/'' FromDone]
      = ([Handle ''/upload'', Handle ''/upload/'', LogMounted ''/upload'',
          Go [Run 0], Started 0, Go [LogConfigReload, Shutdown 0],
          Handle ''/upload/''],
         HandlePanicked ''http: multiple registrations for /upload/'')"
  by (simp add: RunServer_def runLoop_def mount_def ServeMux_Handle_def serve_def startup_def
        shouldRestart_def load_def HasSuffix_def)

section \<open>Properties of the signal handler\<close>

text \<open>
  C8. For every sequence of signals the handler receives, the sends it makes are, in
  order: one on \<^verbatim>\<open>reloadRequested\<close> for each \<^verbatim>\<open>SIGHUP\<close>, one on \<^verbatim>\<open>done\<close> for each
  \<^verbatim>\<open>SIGINT\<close> and each \<^verbatim>\<open>SIGTERM\<close>, and none for any other signal; \<^verbatim>\<open>SIGINT\<close> and
  \<^verbatim>\<open>SIGTERM\<close> are treated alike.
\<close>

theorem signals_translate_to_intents:
  "signalHandler sigs =
     concat (map (\<lambda>sig. if sig = SIGHUP then [ReloadRequested]
                         else if sig = SIGINT \<or> sig = SIGTERM then [Done] else []) sigs)
   \<and> target SIGINT = target SIGTERM"
proof (induction sigs)
  case Nil
  show ?case by simp
next
  case (Cons sig sigs)
  then show ?case by (cases sig) simp_all
qed

theorem signals_translate_to_intents_witness:
  "signalHandler [SIGHUP, SIGINT, OtherSignal 28, SIGTERM, SIGHUP]
     = [ReloadRequested, Done, Done, ReloadRequested]"
  using signals_translate_to_intents [of "[SIGHUP, SIGINT, OtherSignal 28, SIGTERM, SIGHUP]"]
  by simp

text \<open>
  C7, as the claim states it, says that the handler never blocks and drops an intent
  whose kind is still pending. It does not: after two \<^verbatim>\<open>SIGHUP\<close> with no receive by
  the supervisor in between, the handler is blocked in its send on
  \<^verbatim>\<open>reloadRequested\<close>, and once the supervisor has received the first intent the
  second one is in the channel.
\<close>

theorem second_intent_blocks_the_handler:
  "sending (signalHandler_step (arrive SIGHUP (signalHandler_step (arrive SIGHUP initial))))
     = Some ReloadRequested
   \<and> map_option (\<lambda>st. (buffered st ReloadRequested, sending st))
       (receive ReloadRequested
          (signalHandler_step (arrive SIGHUP (signalHandler_step (arrive SIGHUP initial)))))
     = Some (1, None)"
  by (simp add: signalHandler_step_def send_def receive_def arrive_def initial_def capacity_def)

text \<open>
  C7, amended. The handler delivers an intent with a blocking send on a channel of
  capacity 1. A handler that is not blocked and receives a signal with a case in the
  \<^verbatim>\<open>switch\<close>: when the channel of that kind has room, the intent is buffered and the
  handler is not blocked; when an intent of the same kind is still unconsumed, the
  handler blocks in the send and stays blocked, and the receive of the pending intent
  by the supervisor completes the send: the new intent is then in the channel, not
  dropped.
\<close>

theorem intent_delivery_blocks_until_consumed:
  "sending st = None \<and> signals st = sig # rest \<and> target sig = Some c \<longrightarrow>
     (buffered st c < capacity \<longrightarrow>
        signalHandler_step st
          = st\<lparr>signals := rest, buffered := (buffered st)(c := buffered st c + 1)\<rparr>)
   \<and> (\<not> buffered st c < capacity \<longrightarrow>
        signalHandler_step st = st\<lparr>signals := rest, sending := Some c\<rparr>
        \<and> signalHandler_step (signalHandler_step st) = signalHandler_step st
        \<and> receive c (signalHandler_step st) = Some (st\<lparr>signals := rest\<rparr>))"
  by (auto simp: signalHandler_step_def send_def receive_def capacity_def)

theorem intent_delivery_blocks_until_consumed_witness:
  "signalHandler_step \<lparr>signals = [SIGHUP], buffered = (\<lambda>c. 0), sending = None\<rparr>
     = \<lparr>signals = [], buffered = (\<lambda>c. 0)(ReloadRequested := 1), sending = None\<rparr>
   \<and> signalHandler_step
       \<lparr>signals = [SIGHUP], buffered = (\<lambda>c. 0)(ReloadRequested := 1), sending = None\<rparr>
     = \<lparr>signals = [], buffered = (\<lambda>c. 0)(ReloadRequested := 1),
        sending = Some ReloadRequested\<rparr>
   \<and> receive ReloadRequested
       (signalHandler_step
          \<lparr>signals = [SIGHUP], buffered = (\<lambda>c. 0)(ReloadRequested := 1), sending = None\<rparr>)
     = Some \<lparr>signals = [], buffered = (\<lambda>c. 0)(ReloadRequested := 1), sending = None\<rparr>"
  using intent_delivery_blocks_until_consumed
    [where st = "\<lparr>signals = [SIGHUP], buffered = (\<lambda>c. 0), sending = None\<rparr>"
       and sig = SIGHUP and rest = "[]" and c = ReloadRequested]
    intent_delivery_blocks_until_consumed
    [where st = "\<lparr>signals = [SIGHUP], buffered = (\<lambda>c. 0)(ReloadRequested := 1),
                   sending = None\<rparr>"
       and sig = SIGHUP and rest = "[]" and c = ReloadRequested]
  by (simp add: capacity_def receive_def)

end
